theory Spec2Isabelle
  imports Complex_Main "HOL-Library.AList" "HOL-Library.Sublist"
begin

section \<open>Python strings\<close>

text \<open>
  A Python \<open>str\<close> is modelled as a \<open>string\<close>. The model is exact on ASCII text, where
  one character is one code point; the two typographic quotation marks of the summary
  header are written as their UTF-8 bytes.
\<close>

definition is_space :: "char \<Rightarrow> bool" where
  \<comment> \<open>\<open>str.isspace\<close> on the code points below 128: TAB, LF, VT, FF, CR, FS, GS, RS, US, SPACE.\<close>
  "is_space c = (let n = (of_char c :: nat) in (9 \<le> n \<and> n \<le> 13) \<or> (28 \<le> n \<and> n \<le> 32))"

fun split_aux :: "string \<Rightarrow> string \<Rightarrow> string list" where
  "split_aux w [] = (if w = [] then [] else [w])"
| "split_aux w (c # cs) =
     (if is_space c then (if w = [] then split_aux [] cs else w # split_aux [] cs)
      else split_aux (w @ [c]) cs)"

definition split :: "string \<Rightarrow> string list" where
  \<comment> \<open>\<open>s.split()\<close>: the maximal runs of non-whitespace characters.\<close>
  "split s = split_aux [] s"

fun join :: "string \<Rightarrow> string list \<Rightarrow> string" where
  "join sep [] = []"
| "join sep [x] = x"
| "join sep (x # y # ys) = x @ sep @ join sep (y # ys)"

definition strip_chars :: "(char \<Rightarrow> bool) \<Rightarrow> string \<Rightarrow> string" where
  "strip_chars p s = rev (dropWhile p (rev (dropWhile p s)))"

definition strip :: "string \<Rightarrow> string" where
  \<comment> \<open>\<open>s.strip()\<close>\<close>
  "strip s = strip_chars is_space s"

definition lower_char :: "char \<Rightarrow> char" where
  "lower_char c = (let n = (of_char c :: nat) in if 65 \<le> n \<and> n \<le> 90 then char_of (n + 32) else c)"

definition lower :: "string \<Rightarrow> string" where
  "lower s = map lower_char s"

fun digit_char :: "nat \<Rightarrow> char" where
  "digit_char n = char_of (48 + n mod 10)"

fun str_nat_aux :: "nat \<Rightarrow> nat \<Rightarrow> string \<Rightarrow> string" where
  "str_nat_aux 0 n acc = acc"
| "str_nat_aux (Suc fuel) n acc =
     (if n < 10 then digit_char n # acc
      else str_nat_aux fuel (n div 10) (digit_char n # acc))"

definition str_nat :: "nat \<Rightarrow> string" where
  \<comment> \<open>\<open>str(n)\<close> for a non-negative integer: its decimal digits. A number \<open>n\<close> has at most
      \<open>n + 1\<close> digits, so the digit loop always ends within its bound.\<close>
  "str_nat n = str_nat_aux (Suc n) n []"

section \<open>Paths and configuration\<close>

definition os_path_join :: "string \<Rightarrow> string \<Rightarrow> string" where
  \<comment> \<open>\<open>os.path.join(a, b)\<close> on POSIX\<close>
  "os_path_join a b =
     (if b \<noteq> [] \<and> hd b = CHR ''/'' then b
      else if a = [] \<or> last a = CHR ''/'' then a @ b
      else a @ ''/'' @ b)"

definition os_path_basename :: "string \<Rightarrow> string" where
  \<comment> \<open>\<open>os.path.basename(p)\<close> on POSIX: what follows the last slash\<close>
  "os_path_basename p = rev (takeWhile (\<lambda>c. c \<noteq> CHR ''/'') (rev p))"

datatype exn =
  AttributeError | TypeError | ValueError | NameError | KeyError | IndexError
  | NotFittedError | PdfReadError

datatype pdf_source =
  Missing                      \<comment> \<open>\<open>os.path.exists\<close> is false\<close>
  | Unreadable                 \<comment> \<open>\<open>PdfReader(path)\<close> raises\<close>
  | Pages "string option list" \<comment> \<open>per page what \<open>extract_text()\<close> gives; \<open>None\<close> when it raises or returns \<open>None\<close>\<close>

text \<open>
  The collaborators that are not part of the repository: the directory of the module, the
  file system with the PDF reader, scikit-learn's \<open>TfidfVectorizer\<close> (\<open>'v\<close> is a fitted
  vectorizer, a matrix is the list of its dense rows) and NumPy's \<open>argsort\<close>.
\<close>

record 'v env =
  module_dir :: string
  files :: "string \<Rightarrow> pdf_source"
  fit_transform :: "string list \<Rightarrow> ('v \<times> real list list) option"
  transform :: "'v \<Rightarrow> string \<Rightarrow> real list"
  argsort :: "real list \<Rightarrow> nat list"

definition SITE_PDF_FOLDER :: "'v env \<Rightarrow> string" where
  "SITE_PDF_FOLDER E = os_path_join (os_path_join (module_dir E) ''..'') ''site''"

definition PDF_FILES :: "'v env \<Rightarrow> (string \<times> string) list" where
  "PDF_FILES E =
     [(''PMBOK'', os_path_join (SITE_PDF_FOLDER E) ''PMBOK7.pdf''),
      (''PRINCE2'', os_path_join (SITE_PDF_FOLDER E) ''PRINCE2.pdf''),
      (''ISO21500'', os_path_join (SITE_PDF_FOLDER E) ''ISO21500.pdf'')]"

definition TOP_K :: int where
  "TOP_K = 3"

definition NO_TEXT :: string where
  "NO_TEXT = ''[no-text-on-page]''"

section \<open>Building the index\<close>

record entry =
  doc_key :: string
  page_no :: nat
  page_text :: string

datatype 'a pyglobal = Unbound | Bound 'a

record 'v state =
  pages_data :: "entry list"
  doc_page_index :: "(string \<times> nat list) list"
  vectorizer :: "'v option pyglobal"           \<comment> \<open>\<open>Bound None\<close>: constructed, not fitted\<close>
  tfidf_matrix :: "real list list option pyglobal"

definition initial_state :: "'v state" where
  \<comment> \<open>the module's globals before \<open>build_index\<close> has run\<close>
  "initial_state = \<lparr>pages_data = [], doc_page_index = [], vectorizer = Unbound, tfidf_matrix = Unbound\<rparr>"

definition normalize_ws :: "string option \<Rightarrow> string" where
  \<comment> \<open>\<open>text = page.extract_text() or ""\<close> (also when it raises), then \<open>" ".join(text.split())\<close>\<close>
  "normalize_ws t = join '' '' (split (case t of None \<Rightarrow> [] | Some s \<Rightarrow> s))"

definition extract_pages_text :: "'v env \<Rightarrow> string \<Rightarrow> exn + (nat \<times> string) list" where
  "extract_pages_text E pdf_path =
     (case files E pdf_path of
        Pages ps \<Rightarrow> Inr (map (\<lambda>(i, page). (i + 1, normalize_ws page)) (enumerate 0 ps))
      | _ \<Rightarrow> Inl PdfReadError)"

fun add_pages ::
  "string \<Rightarrow> (nat \<times> string) list \<Rightarrow> entry list \<times> string list \<times> nat list
     \<Rightarrow> entry list \<times> string list \<times> nat list" where
  "add_pages dk [] acc = acc"
| "add_pages dk ((pno, txt) # rest) (pd, all_texts, indices) =
     add_pages dk rest
       (pd @ [\<lparr>doc_key = dk, page_no = pno, page_text = txt\<rparr>],
        all_texts @ [if strip txt \<noteq> [] then txt else NO_TEXT],
        indices @ [length pd])"

fun index_docs ::
  "'v env \<Rightarrow> (string \<times> string) list
     \<Rightarrow> entry list \<times> (string \<times> nat list) list \<times> string list
     \<Rightarrow> exn + (entry list \<times> (string \<times> nat list) list \<times> string list)" where
  "index_docs E [] acc = Inr acc"
| "index_docs E ((dk, path) # rest) (pd, dpi, all_texts) =
     (if files E path = Missing then index_docs E rest (pd, AList.update dk [] dpi, all_texts)
      else case extract_pages_text E path of
             Inl e \<Rightarrow> Inl e
           | Inr pages \<Rightarrow>
               (case add_pages dk pages (pd, all_texts, []) of
                  (pd', all_texts', indices) \<Rightarrow>
                    index_docs E rest (pd', AList.update dk indices dpi, all_texts')))"

definition build_corpus ::
  "'v env \<Rightarrow> exn + (entry list \<times> (string \<times> nat list) list \<times> string list)" where
  \<comment> \<open>lines 50 to 66 of \<open>build_index\<close>: the loop over \<open>PDF_FILES.items()\<close>, giving
      \<open>pages_data\<close>, \<open>doc_page_index\<close> and the local \<open>all_texts\<close>\<close>
  "build_corpus E = index_docs E (PDF_FILES E) ([], [], [])"

definition build_index :: "'v env \<Rightarrow> exn + 'v state" where
  \<comment> \<open>the globals after the build, or the exception that ends it\<close>
  "build_index E =
     (case build_corpus E of
        Inl e \<Rightarrow> Inl e
      | Inr (pd, dpi, all_texts) \<Rightarrow>
          if all_texts \<noteq> [] then
            (case fit_transform E all_texts of
               None \<Rightarrow> Inl ValueError
             | Some (v, m) \<Rightarrow>
                 Inr \<lparr>pages_data = pd, doc_page_index = dpi,
                      vectorizer = Bound (Some v), tfidf_matrix = Bound (Some m)\<rparr>)
          else
            Inr \<lparr>pages_data = pd, doc_page_index = dpi,
                 vectorizer = Bound None, tfidf_matrix = Bound None\<rparr>)"

section \<open>The search request\<close>

datatype json =
  JNull | JBool bool | JInt int | JReal rat | JStr string
  | JArr "json list" | JObj "(string \<times> json) list"

fun falsy :: "json \<Rightarrow> bool" where
  "falsy JNull = True"
| "falsy (JBool b) = (\<not> b)"
| "falsy (JInt n) = (n = 0)"
| "falsy (JReal r) = (r = 0)"
| "falsy (JStr s) = (s = [])"
| "falsy (JArr xs) = (xs = [])"
| "falsy (JObj kvs) = (kvs = [])"

definition dict_get :: "(string \<times> 'a) list \<Rightarrow> string \<Rightarrow> 'a \<Rightarrow> 'a" where
  \<comment> \<open>\<open>d.get(k, default)\<close>; of a repeated key of a JSON object the last value counts\<close>
  "dict_get d k dflt = (case map_of (rev d) k of None \<Rightarrow> dflt | Some v \<Rightarrow> v)"

definition is_digit :: "char \<Rightarrow> bool" where
  "is_digit c = (let n = (of_char c :: nat) in 48 \<le> n \<and> n \<le> 57)"

fun parse_digits :: "nat \<Rightarrow> bool \<Rightarrow> string \<Rightarrow> nat option" where
  \<comment> \<open>decimal digits, single underscores allowed between two digits\<close>
  "parse_digits acc after_digit [] = (if after_digit then Some acc else None)"
| "parse_digits acc after_digit (c # cs) =
     (if is_digit c then parse_digits (10 * acc + (of_char c - 48)) True cs
      else if c = CHR ''_'' \<and> after_digit then parse_digits acc False cs
      else None)"

definition int_of_str :: "string \<Rightarrow> int option" where
  \<comment> \<open>\<open>int(s)\<close> for a string: surrounding whitespace, an optional sign, digits\<close>
  "int_of_str s =
     (case strip s of
        [] \<Rightarrow> None
      | c # cs \<Rightarrow>
          if c = CHR ''-'' then map_option (\<lambda>n. - int n) (parse_digits 0 False cs)
          else if c = CHR ''+'' then map_option int (parse_digits 0 False cs)
          else map_option int (parse_digits 0 False (c # cs)))"

fun py_int :: "json \<Rightarrow> exn + int" where
  "py_int (JInt n) = Inr n"
| "py_int (JBool b) = Inr (if b then 1 else 0)"
| "py_int (JReal r) = Inr (if 0 \<le> r then \<lfloor>r\<rfloor> else \<lceil>r\<rceil>)"
| "py_int (JStr s) = (case int_of_str s of None \<Rightarrow> Inl ValueError | Some n \<Rightarrow> Inr n)"
| "py_int JNull = Inl TypeError"
| "py_int (JArr xs) = Inl TypeError"
| "py_int (JObj kvs) = Inl TypeError"

definition request_data :: "json \<Rightarrow> exn + (string \<times> json) list" where
  \<comment> \<open>\<open>data = request.json or {}\<close>; the body must then answer \<open>.get\<close>\<close>
  "request_data body =
     (if falsy body then Inr []
      else case body of JObj d \<Rightarrow> Inr d | _ \<Rightarrow> Inl AttributeError)"

definition request_query :: "(string \<times> json) list \<Rightarrow> exn + string" where
  \<comment> \<open>\<open>data.get("query", "").strip()\<close>\<close>
  "request_query data =
     (case dict_get data ''query'' (JStr []) of
        JStr s \<Rightarrow> Inr (strip s)
      | _ \<Rightarrow> Inl AttributeError)"

definition request_top_k :: "(string \<times> json) list \<Rightarrow> exn + int" where
  \<comment> \<open>\<open>int(data.get("top_k", TOP_K))\<close>\<close>
  "request_top_k data = py_int (dict_get data ''top_k'' (JInt TOP_K))"

section \<open>Ranking\<close>

definition dot :: "real list \<Rightarrow> real list \<Rightarrow> real" where
  "dot u v = (\<Sum>(a, b)\<leftarrow>zip u v. a * b)"

definition linear_kernel :: "real list list \<Rightarrow> real list list \<Rightarrow> exn + real list list" where
  \<comment> \<open>\<open>linear_kernel(X, Y)\<close>: all dot products of a row of X with a row of Y\<close>
  "linear_kernel X Y =
     (if \<forall>x\<in>set X. \<forall>y\<in>set Y. length x = length y
      then Inr (map (\<lambda>x. map (dot x) Y) X) else Inl ValueError)"

definition take_rows :: "real list \<Rightarrow> nat list \<Rightarrow> exn + real list" where
  \<comment> \<open>\<open>cosine_similarities[idxs]\<close>\<close>
  "take_rows cs idxs =
     (if \<forall>i\<in>set idxs. i < length cs then Inr (map (\<lambda>i. cs ! i) idxs) else Inl IndexError)"

definition slice_to :: "int \<Rightarrow> 'a list \<Rightarrow> 'a list" where
  \<comment> \<open>\<open>xs[:k]\<close>: a negative \<open>k\<close> counts from the end\<close>
  "slice_to k xs = (if 0 \<le> k then take (nat k) xs else take (length xs - nat (- k)) xs)"

definition round_half_even :: "real \<Rightarrow> int" where
  "round_half_even x =
     (let f = \<lfloor>x\<rfloor>; d = x - of_int f
      in if d < 1 / 2 then f else if 1 / 2 < d then f + 1 else if even f then f else f + 1)"

definition round4 :: "real \<Rightarrow> real" where
  \<comment> \<open>\<open>round(score, 4)\<close>, on the reals\<close>
  "round4 x = of_int (round_half_even (x * 10000)) / 10000"

text \<open>
  The keys of a result item and of the answer are those the code emits (lines 128 to 133 and
  140 to 144): \<open>page_no\<close>, \<open>score\<close>, \<open>text_snippet\<close>, \<open>pdf_link\<close> and \<open>query\<close>, \<open>results\<close>,
  \<open>summary\<close>. The docstring of the handler names the item keys \<open>snippet\<close> and \<open>link\<close>
  and no \<open>query\<close> field; the code is followed here.
\<close>

record item =
  item_page_no :: nat
  item_score :: real
  text_snippet :: string
  pdf_link :: string

definition make_item :: "'v state \<Rightarrow> string \<Rightarrow> nat list \<Rightarrow> real list \<Rightarrow> nat \<Rightarrow> exn + item" where
  \<comment> \<open>one pass of the loop over \<open>top_idx_order\<close>, lines 119 to 133\<close>
  "make_item st pdf_filename idxs scores rank_pos =
     (if length idxs \<le> rank_pos \<or> length scores \<le> rank_pos then Inl IndexError
      else let page_idx = idxs ! rank_pos; score = scores ! rank_pos
        in if length (pages_data st) \<le> page_idx then Inl IndexError
           else let txt = page_text (pages_data st ! page_idx);
                    pno = page_no (pages_data st ! page_idx);
                    link = pdf_filename @ ''#page='' @ str_nat pno;
                    snippet = (if 600 < length txt then take 600 txt @ ''...'' else txt)
             in Inr \<lparr>item_page_no = pno, item_score = round4 score,
                     text_snippet = snippet, pdf_link = link\<rparr>)"

fun make_items :: "'v state \<Rightarrow> string \<Rightarrow> nat list \<Rightarrow> real list \<Rightarrow> nat list \<Rightarrow> exn + item list" where
  "make_items st fn idxs scores [] = Inr []"
| "make_items st fn idxs scores (rank_pos # rest) =
     (case make_item st fn idxs scores rank_pos of
        Inl e \<Rightarrow> Inl e
      | Inr it \<Rightarrow>
          (case make_items st fn idxs scores rest of
             Inl e \<Rightarrow> Inl e
           | Inr its \<Rightarrow> Inr (it # its)))"

definition top_idx_order :: "'v env \<Rightarrow> int \<Rightarrow> real list \<Rightarrow> nat list" where
  \<comment> \<open>\<open>scores.argsort()[::-1][:top_k]\<close>\<close>
  "top_idx_order E top_k scores = slice_to top_k (rev (argsort E scores))"

definition search_doc ::
  "'v env \<Rightarrow> 'v state \<Rightarrow> real list \<Rightarrow> int \<Rightarrow> string \<Rightarrow> nat list \<Rightarrow> exn + item list" where
  \<comment> \<open>the body of the loop over the documents for a document with pages, lines 111 to 133\<close>
  "search_doc E st cs top_k dk indices =
     (case take_rows cs indices of
        Inl e \<Rightarrow> Inl e
      | Inr scores \<Rightarrow>
          (case map_of (PDF_FILES E) dk of
             None \<Rightarrow> Inl KeyError
           | Some path \<Rightarrow>
               make_items st (os_path_basename path) indices scores
                 (top_idx_order E top_k scores)))"

fun search_docs ::
  "'v env \<Rightarrow> 'v state \<Rightarrow> real list \<Rightarrow> int \<Rightarrow> (string \<times> nat list) list
     \<Rightarrow> (string \<times> item list) list \<times> (string \<times> string) list
     \<Rightarrow> exn + ((string \<times> item list) list \<times> (string \<times> string) list)" where
  "search_docs E st cs top_k [] acc = Inr acc"
| "search_docs E st cs top_k ((dk, indices) # rest) (results, snippets_for_summary) =
     (if indices = [] then
        search_docs E st cs top_k rest (AList.update dk [] results, snippets_for_summary)
      else case search_doc E st cs top_k dk indices of
             Inl e \<Rightarrow> Inl e
           | Inr items \<Rightarrow>
               search_docs E st cs top_k rest
                 (AList.update dk items results,
                  AList.update dk (join '' '' (map text_snippet items)) snippets_for_summary))"

section \<open>The comparative summary\<close>

definition query_tokens :: "string \<Rightarrow> string set" where
  "query_tokens query = set (map lower (filter (\<lambda>t. 2 < length t) (split query)))"

definition text_tokens :: "string \<Rightarrow> string set" where
  "text_tokens txt =
     set (map (\<lambda>w. strip_chars (\<lambda>c. c \<in> set ''.,()'') (lower w))
            (filter (\<lambda>w. 2 < length w) (split txt)))"

fun score_docs :: "string set \<Rightarrow> (string \<times> string) list \<Rightarrow> (string \<times> nat) list \<Rightarrow> (string \<times> nat) list" where
  "score_docs q_tokens [] doc_scores = doc_scores"
| "score_docs q_tokens ((doc, txt) # rest) doc_scores =
     score_docs q_tokens rest (AList.update doc (card (q_tokens \<inter> text_tokens txt)) doc_scores)"

definition ranked_docs :: "string \<Rightarrow> (string \<times> string) list \<Rightarrow> (string \<times> nat) list" where
  \<comment> \<open>\<open>sorted(doc_scores.items(), key=lambda x: x[1], reverse=True)\<close>: stable, so documents
      of equal overlap keep the order of the dictionary\<close>
  "ranked_docs query snippets_for_doc =
     sort_key (\<lambda>(d, s). - int s) (score_docs (query_tokens query) snippets_for_doc [])"

definition ldquo :: string where
  "ldquo = [CHR 0xE2, CHR 0x80, CHR 0x9C]"

definition rdquo :: string where
  "rdquo = [CHR 0xE2, CHR 0x80, CHR 0x9D]"

definition relevance_line :: "(string \<times> nat) list \<Rightarrow> string" where
  \<comment> \<open>lines 158 to 161\<close>
  "relevance_line ranked =
     (if ranked \<noteq> [] \<and> 0 < snd (hd ranked)
      then ''Documents with strongest relevance: '' @ join '', '' (map fst ranked) @ ''.''
      else ''No clear dominant document found; all provide contextual relevance.'')"

definition detail_lines :: "(string \<times> string) list \<Rightarrow> (string \<times> nat) list \<Rightarrow> string list" where
  \<comment> \<open>lines 163 to 167\<close>
  "detail_lines snippets_for_doc ranked =
     concat (map (\<lambda>(doc, s).
        let snippet = dict_get snippets_for_doc doc []
        in if strip snippet \<noteq> []
           then [doc @ '': '' @ (if 200 < length snippet then take 200 snippet @ ''...'' else snippet)]
           else []) ranked)"

definition summary_lines :: "string \<Rightarrow> (string \<times> string) list \<Rightarrow> string list" where
  "summary_lines query snippets_for_doc =
     (let ranked = ranked_docs query snippets_for_doc
      in [''Comparative summary for query: '' @ ldquo @ query @ rdquo @ ''.'',
          relevance_line ranked]
         @ detail_lines snippets_for_doc ranked
         @ [''Note: Click on the document links to view the relevant PDF pages.''])"

definition synthesize_summary :: "string \<Rightarrow> (string \<times> string) list \<Rightarrow> string" where
  "synthesize_summary query snippets_for_doc = join '' '' (summary_lines query snippets_for_doc)"

section \<open>The search route\<close>

datatype failure =
  ErrorResponse nat string   \<comment> \<open>the status code and the \<open>error\<close> field of the JSON answer\<close>
  | Raised exn               \<comment> \<open>an exception nothing in the handler catches\<close>

record response =
  r_query :: string
  r_results :: "(string \<times> item list) list"
  r_summary :: string

definition api_search :: "'v env \<Rightarrow> 'v state \<Rightarrow> json \<Rightarrow> failure + response" where
  "api_search E st body =
     (case request_data body of
        Inl e \<Rightarrow> Inl (Raised e)
      | Inr data \<Rightarrow>
     (case request_query data of
        Inl e \<Rightarrow> Inl (Raised e)
      | Inr query \<Rightarrow>
     (case request_top_k data of
        Inl e \<Rightarrow> Inl (Raised e)
      | Inr top_k \<Rightarrow>
     if query = [] then Inl (ErrorResponse 400 ''empty query'')
     else
     (case tfidf_matrix st of
        Unbound \<Rightarrow> Inl (Raised NameError)
      | Bound None \<Rightarrow> Inl (ErrorResponse 500 ''Index not built or PDFs missing.'')
      | Bound (Some m) \<Rightarrow>
     (case vectorizer st of
        Unbound \<Rightarrow> Inl (Raised NameError)
      | Bound None \<Rightarrow> Inl (Raised NotFittedError)
      | Bound (Some v) \<Rightarrow>
     (case linear_kernel [transform E v query] m of
        Inl e \<Rightarrow> Inl (Raised e)
      | Inr k \<Rightarrow>
     (case search_docs E st (concat k) top_k (doc_page_index st) ([], []) of
        Inl e \<Rightarrow> Inl (Raised e)
      | Inr (results, snippets_for_summary) \<Rightarrow>
          Inr \<lparr>r_query = query, r_results = results,
               r_summary = synthesize_summary query snippets_for_summary\<rparr>)))))))"

section \<open>Notions the properties are stated with\<close>

definition blank :: "string option \<Rightarrow> bool" where
  \<comment> \<open>a page whose extraction gives nothing, the empty string or whitespace only\<close>
  "blank t = (case t of None \<Rightarrow> True | Some s \<Rightarrow> list_all is_space s)"



definition tfidf_vector :: "real list \<Rightarrow> bool" where
  \<comment> \<open>what \<open>TfidfVectorizer\<close> with its default \<open>norm="l2"\<close> produces: non-negative
      weights, of Euclidean length 1 unless no term of the vocabulary occurs\<close>
  "tfidf_vector u = ((\<forall>x\<in>set u. 0 \<le> x) \<and> (dot u u = 1 \<or> dot u u = 0))"

definition vectorizer_ok :: "'v env \<Rightarrow> bool" where
  \<comment> \<open>the contract of the vectorizer: one row per text, every row and every transformed
      query a TF-IDF vector over the one fitted vocabulary\<close>
  "vectorizer_ok E =
     (\<forall>texts v m. fit_transform E texts = Some (v, m) \<longrightarrow>
        length m = length texts \<and>
        (\<forall>row\<in>set m. tfidf_vector row \<and> (\<forall>q. length (transform E v q) = length row)) \<and>
        (\<forall>q. tfidf_vector (transform E v q)))"


definition argsort_stable :: "real list \<Rightarrow> nat list" where
  \<comment> \<open>an \<open>argsort\<close> that keeps equal values in the order of their positions, as the
      insertion sort does that NumPy runs on short arrays\<close>
  "argsort_stable xs = sort_key (\<lambda>i. xs ! i) [0..<length xs]"

definition overlap :: "string \<Rightarrow> string \<Rightarrow> nat" where
  \<comment> \<open>the token-overlap score of a document's excerpt text for a query\<close>
  "overlap query txt = card (query_tokens query \<inter> text_tokens txt)"




definition vec_text :: "string \<Rightarrow> string" where
  \<comment> \<open>the text of a page as the vectorizer gets it, line 65\<close>
  "vec_text txt = (if strip txt \<noteq> [] then txt else NO_TEXT)"

definition doc_pages :: "'v env \<Rightarrow> string \<times> string \<Rightarrow> entry list" where
  \<comment> \<open>the page records of one configured document, in the order of its pages\<close>
  "doc_pages E d =
     (case files E (snd d) of
        Pages ps \<Rightarrow>
          map (\<lambda>(i, page). \<lparr>doc_key = fst d, page_no = i + 1, page_text = normalize_ws page\<rparr>)
            (enumerate 0 ps)
      | _ \<Rightarrow> [])"

definition corpus_inv ::
  "'v env \<Rightarrow> (string \<times> string) list \<Rightarrow> entry list \<Rightarrow> (string \<times> nat list) list \<Rightarrow> string list \<Rightarrow> bool" where
  \<comment> \<open>what holds of \<open>pages_data\<close>, \<open>doc_page_index\<close> and \<open>all_texts\<close> once the documents
      \<open>ds\<close> have been read\<close>
  "corpus_inv E ds pd dpi all_texts =
     (all_texts = map (\<lambda>e. vec_text (page_text e)) pd \<and>
      concat (map snd dpi) = [0..<length pd] \<and>
      list_all2 (\<lambda>d (dk, idxs). dk = fst d \<and> map (\<lambda>g. pd ! g) idxs = doc_pages E d) ds dpi)"

section \<open>A small corpus to run the functions on\<close>

definition toy_vec :: "string \<Rightarrow> real list" where
  \<comment> \<open>a vectorizer over the vocabulary scope, risk that keeps one term per text\<close>
  "toy_vec t =
     (let ws = split (lower t)
      in if ''scope'' \<in> set ws then [1, 0] else if ''risk'' \<in> set ws then [0, 1] else [0, 0])"

definition demo_files :: "string \<Rightarrow> pdf_source" where
  "demo_files p =
     (if p = ''/srv/backend/../site/PMBOK7.pdf''
        then Pages [Some ''Project  scope'', Some ''scope baseline'', Some ''  '']
      else if p = ''/srv/backend/../site/PRINCE2.pdf''
        then Pages [Some ''Risk register'', None]
      else Missing)"

definition demo_env :: "unit env" where
  "demo_env =
     \<lparr>module_dir = ''/srv/backend'', files = demo_files,
      fit_transform = (\<lambda>texts. Some ((), map toy_vec texts)),
      transform = (\<lambda>v q. toy_vec q),
      argsort = argsort_stable\<rparr>"

definition demo_pages :: "entry list" where
  "demo_pages =
     [\<lparr>doc_key = ''PMBOK'', page_no = 1, page_text = ''Project scope''\<rparr>,
      \<lparr>doc_key = ''PMBOK'', page_no = 2, page_text = ''scope baseline''\<rparr>,
      \<lparr>doc_key = ''PMBOK'', page_no = 3, page_text = []\<rparr>,
      \<lparr>doc_key = ''PRINCE2'', page_no = 1, page_text = ''Risk register''\<rparr>,
      \<lparr>doc_key = ''PRINCE2'', page_no = 2, page_text = []\<rparr>]"

definition demo_index :: "(string \<times> nat list) list" where
  "demo_index = [(''PMBOK'', [0, 1, 2]), (''PRINCE2'', [3, 4]), (''ISO21500'', [])]"

definition demo_texts :: "string list" where
  "demo_texts = [''Project scope'', ''scope baseline'', NO_TEXT, ''Risk register'', NO_TEXT]"

definition demo_state :: "unit state" where
  "demo_state =
     \<lparr>pages_data = demo_pages, doc_page_index = demo_index,
      vectorizer = Bound (Some ()),
      tfidf_matrix = Bound (Some [[1, 0], [1, 0], [0, 0], [0, 1], [0, 0]])\<rparr>"

definition no_files_env :: "unit env" where
  \<comment> \<open>none of the three PDFs is there\<close>
  "no_files_env = demo_env\<lparr>files := (\<lambda>p. Missing)\<rparr>"

definition no_files_state :: "unit state" where
  "no_files_state =
     \<lparr>pages_data = [], doc_page_index = [(''PMBOK'', []), (''PRINCE2'', []), (''ISO21500'', [])],
      vectorizer = Bound None, tfidf_matrix = Bound None\<rparr>"


definition demo_request :: "string \<Rightarrow> json \<Rightarrow> json" where
  "demo_request q k = JObj [(''query'', JStr q), (''top_k'', k)]"

lemma update_fresh: "k \<notin> fst ` set al \<Longrightarrow> AList.update k v al = al @ [(k, v)]"
  by (induction al) auto

lemma add_pages_eq:
  "add_pages dk pages (pd, ats, ix) =
     (pd @ map (\<lambda>(pno, txt). \<lparr>doc_key = dk, page_no = pno, page_text = txt\<rparr>) pages,
      ats @ map (\<lambda>(pno, txt). vec_text txt) pages,
      ix @ [length pd..<length pd + length pages])"
proof (induction pages arbitrary: pd ats ix)
  case Nil
  then show ?case by simp
next
  case (Cons p pages)
  obtain pno t where p: "p = (pno, t)" by (cases p)
  have u: "[length pd..<length pd + length (p # pages)] =
             length pd # [length (pd @ [e])..<length (pd @ [e]) + length pages]" for e :: entry
    by (simp add: upt_conv_Cons del: upt_Suc)
  show ?case
    unfolding p add_pages.simps Cons.IH u[of "\<lparr>doc_key = dk, page_no = pno, page_text = t\<rparr>", unfolded p]
    by (auto simp: vec_text_def)
qed

lemma extract_pages_text_eq:
  "extract_pages_text E path = Inr pages \<Longrightarrow>
   map (\<lambda>(pno, txt). \<lparr>doc_key = dk, page_no = pno, page_text = txt\<rparr>) pages = doc_pages E (dk, path)"
  by (auto simp: extract_pages_text_def doc_pages_def split: pdf_source.splits)

lemma corpus_inv_step:
  assumes inv: "corpus_inv E ds pd dpi ats"
  shows "corpus_inv E (ds @ [d]) (pd @ doc_pages E d) (dpi @ [(fst d, [length pd..<length pd + length (doc_pages E d)])])
           (ats @ map (\<lambda>e. vec_text (page_text e)) (doc_pages E d))"
proof -
  let ?new = "doc_pages E d"
  have c: "concat (map snd dpi) = [0..<length pd]" using inv by (simp add: corpus_inv_def)
  have old: "list_all2 (\<lambda>d (dk, idxs). dk = fst d \<and> map (\<lambda>g. pd ! g) idxs = doc_pages E d) ds dpi"
    using inv by (simp add: corpus_inv_def)
  have bound: "\<And>dk idxs g. (dk, idxs) \<in> set dpi \<Longrightarrow> g \<in> set idxs \<Longrightarrow> g < length pd"
  proof -
    fix dk idxs g assume "(dk, idxs) \<in> set dpi" "g \<in> set idxs"
    then have "g \<in> set (concat (map snd dpi))" by force
    then show "g < length pd" by (simp add: c)
  qed
  have old': "list_all2 (\<lambda>d (dk, idxs). dk = fst d \<and> map (\<lambda>g. (pd @ ?new) ! g) idxs = doc_pages E d) ds dpi"
  proof (rule list.rel_mono_strong[OF old])
    fix x y assume xy: "x \<in> set ds" "y \<in> set dpi"
      and h: "case y of (dk, idxs) \<Rightarrow> dk = fst x \<and> map (\<lambda>g. pd ! g) idxs = doc_pages E x"
    obtain dk idxs where y: "y = (dk, idxs)" by (cases y)
    have eq: "map (\<lambda>g. (pd @ ?new) ! g) idxs = map (\<lambda>g. pd ! g) idxs"
      using bound[of dk idxs] xy y by (auto simp: nth_append)
    have o: "map (\<lambda>g. pd ! g) idxs = doc_pages E x" and k: "dk = fst x"
      using h y by simp_all
    have "map (\<lambda>g. (pd @ ?new) ! g) idxs = doc_pages E x"
      by (rule trans[OF eq o])
    then show "case y of (dk, idxs) \<Rightarrow> dk = fst x \<and> map (\<lambda>g. (pd @ ?new) ! g) idxs = doc_pages E x"
      using k y by (simp del: map_eq_conv)
  qed
  have new: "map (\<lambda>g. (pd @ ?new) ! g) [length pd..<length pd + length ?new] = ?new"
    by (rule nth_equalityI) (auto simp: nth_append)
  have cc: "concat (map snd (dpi @ [(fst d, [length pd..<length pd + length ?new])])) = [0..<length (pd @ ?new)]"
    using c by (simp add: upt_add_eq_append[symmetric])
  show ?thesis
    unfolding corpus_inv_def
    using inv old' new cc by (simp add: corpus_inv_def list_all2_appendI)
qed

lemma index_docs_inv:
  assumes "corpus_inv E ds pd dpi ats"
    and "distinct (map fst ds @ map fst docs)"
    and "index_docs E docs (pd, dpi, ats) = Inr (pd', dpi', ats')"
  shows "corpus_inv E (ds @ docs) pd' dpi' ats'"
  using assms
proof (induction docs arbitrary: ds pd dpi ats)
  case Nil
  then show ?case by simp
next
  case (Cons d docs)
  obtain dk path where d: "d = (dk, path)" by (cases d)
  have keys: "map fst dpi = map fst ds"
    using Cons.prems(1) by (auto simp: corpus_inv_def list_all2_conv_all_nth intro!: nth_equalityI)
  have fresh: "dk \<notin> fst ` set dpi"
  proof -
    have "fst ` set dpi = set (map fst ds)" using keys by (metis set_map)
    then show ?thesis using Cons.prems(2) d by auto
  qed
  have dist: "distinct (map fst (ds @ [d]) @ map fst docs)"
    using Cons.prems(2) by simp
  show ?case
  proof (cases "files E path = Missing")
    case True
    then have dp: "doc_pages E d = []" by (simp add: doc_pages_def d)
    have step: "corpus_inv E (ds @ [d]) pd (dpi @ [(dk, [])]) ats"
      using corpus_inv_step[OF Cons.prems(1), of d] dp d by simp
    have run: "index_docs E docs (pd, dpi @ [(dk, [])], ats) = Inr (pd', dpi', ats')"
      using Cons.prems(3) True d by (simp add: update_fresh[OF fresh])
    show ?thesis using Cons.IH[OF step dist run] by simp
  next
    case False
    then obtain pages where ex: "extract_pages_text E path = Inr pages"
      using Cons.prems(3) d by (auto split: sum.splits)
    let ?new = "doc_pages E d"
    have newp: "map (\<lambda>(pno, txt). \<lparr>doc_key = dk, page_no = pno, page_text = txt\<rparr>) pages = ?new"
      using extract_pages_text_eq[OF ex] d by simp
    have len: "length pages = length ?new" using newp by (metis length_map)
    have txts: "map (\<lambda>(pno, txt). vec_text txt) pages = map (\<lambda>e. vec_text (page_text e)) ?new"
      unfolding newp[symmetric] by (simp add: comp_def case_prod_unfold)
    have run: "index_docs E docs (pd @ ?new, dpi @ [(dk, [length pd..<length pd + length ?new])],
                 ats @ map (\<lambda>e. vec_text (page_text e)) ?new) = Inr (pd', dpi', ats')"
      using Cons.prems(3) False d ex
      by (simp add: add_pages_eq update_fresh[OF fresh] newp len txts)
    have step: "corpus_inv E (ds @ [d]) (pd @ ?new) (dpi @ [(dk, [length pd..<length pd + length ?new])])
                  (ats @ map (\<lambda>e. vec_text (page_text e)) ?new)"
      using corpus_inv_step[OF Cons.prems(1), of d] d by simp
    show ?thesis using Cons.IH[OF step dist run] by simp
  qed
qed

lemma distinct_PDF_FILES: "distinct (map fst (PDF_FILES E))"
  by (simp add: PDF_FILES_def)

lemma build_corpus_inv:
  assumes "build_corpus E = Inr (pd, dpi, ats)"
  shows "corpus_inv E (PDF_FILES E) pd dpi ats"
proof -
  have "corpus_inv E [] [] [] []" by (simp add: corpus_inv_def)
  from index_docs_inv[OF this _ assms[unfolded build_corpus_def]] distinct_PDF_FILES[of E]
  show ?thesis by simp
qed

lemma demo_build_corpus: "build_corpus demo_env = Inr (demo_pages, demo_index, demo_texts)"
  by code_simp

lemma demo_build_index: "build_index demo_env = Inr demo_state"
  by code_simp

lemma no_files_build_index: "build_index no_files_env = Inr no_files_state"
  by code_simp

lemma split_aux_blank: "list_all is_space s \<Longrightarrow> split_aux [] s = []"
  by (induction s) auto

lemma normalize_ws_blank: "blank t \<Longrightarrow> normalize_ws t = []"
  by (cases t) (auto simp: blank_def normalize_ws_def split_def split_aux_blank)

lemma vec_text_empty: "vec_text [] = NO_TEXT"
  by (simp add: vec_text_def strip_def strip_chars_def)

lemma toy_vec_cases: "toy_vec t = [1, 0] \<or> toy_vec t = [0, 1] \<or> toy_vec t = [0, 0]"
  by (simp add: toy_vec_def Let_def)

lemma toy_vec_tfidf: "tfidf_vector (toy_vec t)"
  using toy_vec_cases[of t] by (auto simp: tfidf_vector_def dot_def)

lemma toy_vec_length: "length (toy_vec t) = 2"
  using toy_vec_cases[of t] by auto

lemma demo_vectorizer_ok: "vectorizer_ok demo_env"
  by (auto simp: vectorizer_ok_def demo_env_def toy_vec_tfidf toy_vec_length)

lemma no_files_vectorizer_ok: "vectorizer_ok no_files_env"
  by (auto simp: vectorizer_ok_def no_files_env_def demo_env_def toy_vec_tfidf toy_vec_length)

lemma corpus_inv_bound:
  assumes "corpus_inv E ds pd dpi ats" "(dk, idxs) \<in> set dpi" "g \<in> set idxs"
  shows "g < length pd"
proof -
  have c: "concat (map snd dpi) = [0..<length pd]" using assms(1) by (simp add: corpus_inv_def)
  have "g \<in> set (concat (map snd dpi))" using assms(2,3) by force
  then show ?thesis unfolding c by simp
qed

lemma concat_distinct_unique:
  "distinct (concat (map snd al)) \<Longrightarrow> (k, xs) \<in> set al \<Longrightarrow> (k', xs') \<in> set al \<Longrightarrow>
   g \<in> set xs \<Longrightarrow> g \<in> set xs' \<Longrightarrow> distinct (map fst al) \<Longrightarrow> k = k'"
  by (induction al) force+

lemma corpus_inv_doc:
  assumes "corpus_inv E ds pd dpi ats" "d \<in> set ds"
  shows "\<exists>idxs. (fst d, idxs) \<in> set dpi \<and> map (\<lambda>g. pd ! g) idxs = doc_pages E d"
proof -
  have l: "list_all2 (\<lambda>d (dk, idxs). dk = fst d \<and> map (\<lambda>g. pd ! g) idxs = doc_pages E d) ds dpi"
    using assms(1) by (simp add: corpus_inv_def)
  obtain j where j: "j < length ds" "ds ! j = d" using assms(2) by (auto simp: in_set_conv_nth)
  have len: "length ds = length dpi" using l by (rule list_all2_lengthD)
  obtain dk idxs where e: "dpi ! j = (dk, idxs)" by (cases "dpi ! j")
  have "dk = fst d \<and> map (\<lambda>g. pd ! g) idxs = doc_pages E d"
    using list_all2_nthD[OF l j(1)] j(2) e by simp
  moreover have "(dk, idxs) \<in> set dpi" using j(1) len e by (metis nth_mem)
  ultimately show ?thesis by auto
qed

lemma corpus_inv_entry:
  assumes "corpus_inv E ds pd dpi ats" "(dk, idxs) \<in> set dpi"
  shows "\<exists>d\<in>set ds. fst d = dk \<and> map (\<lambda>g. pd ! g) idxs = doc_pages E d"
proof -
  have l: "list_all2 (\<lambda>d (dk, idxs). dk = fst d \<and> map (\<lambda>g. pd ! g) idxs = doc_pages E d) ds dpi"
    using assms(1) by (simp add: corpus_inv_def)
  obtain j where j: "j < length dpi" "dpi ! j = (dk, idxs)" using assms(2) by (auto simp: in_set_conv_nth)
  have len: "length ds = length dpi" using l by (rule list_all2_lengthD)
  have "dk = fst (ds ! j) \<and> map (\<lambda>g. pd ! g) idxs = doc_pages E (ds ! j)"
    using list_all2_nthD2[OF l j(1)] j(2) by simp
  moreover have "ds ! j \<in> set ds" using j(1) len by simp
  ultimately show ?thesis by auto
qed

lemma corpus_inv_keys:
  assumes "corpus_inv E ds pd dpi ats"
  shows "map fst dpi = map fst ds"
  using assms by (auto simp: corpus_inv_def list_all2_conv_all_nth intro!: nth_equalityI)

lemma doc_pages_length: "files E path = Pages ps \<Longrightarrow> length (doc_pages E (dk, path)) = length ps"
  by (simp add: doc_pages_def)

lemma doc_pages_nth:
  "files E path = Pages ps \<Longrightarrow> i < length ps \<Longrightarrow>
   doc_pages E (dk, path) ! i = \<lparr>doc_key = dk, page_no = i + 1, page_text = normalize_ws (ps ! i)\<rparr>"
  by (simp add: doc_pages_def nth_enumerate_eq)

lemma doc_pages_key_no:
  "k < length (doc_pages E d) \<Longrightarrow>
   doc_key (doc_pages E d ! k) = fst d \<and> page_no (doc_pages E d ! k) = k + 1"
  by (auto simp: doc_pages_def nth_enumerate_eq split: pdf_source.splits)

lemma doc_pages_missing: "files E (snd d) = Missing \<Longrightarrow> doc_pages E d = []"
  by (simp add: doc_pages_def)

lemma build_index_corpus:
  assumes "build_index E = Inr st"
  shows "\<exists>ats. build_corpus E = Inr (pages_data st, doc_page_index st, ats) \<and>
           (ats = [] \<longrightarrow> tfidf_matrix st = Bound None \<and> vectorizer st = Bound None) \<and>
           (ats \<noteq> [] \<longrightarrow> (\<exists>v m. fit_transform E ats = Some (v, m) \<and>
               tfidf_matrix st = Bound (Some m) \<and> vectorizer st = Bound (Some v)))"
  using assms by (auto simp: build_index_def split: sum.splits prod.splits if_splits option.splits)

text \<open>
  Claim C7. A page whose extraction gives nothing or only whitespace is still appended to
  the corpus, with its document key, its page number and the empty text, at a position
  listed for its document; the text handed to the vectorizer at that position is the
  sentinel, and the matrix of a build that succeeds has a row for it (one row per text).
\<close>

theorem blank_page_keeps_row:
  assumes "vectorizer_ok E"
    and "build_index E = Inr st"
    and "build_corpus E = Inr (pd, dpi, all_texts)"
    and "(dk, path) \<in> set (PDF_FILES E)"
    and "files E path = Pages ps"
    and "i < length ps"
    and "blank (ps ! i)"
  shows "\<exists>idxs m. (dk, idxs) \<in> set (doc_page_index st) \<and> length idxs = length ps \<and>
           idxs ! i < length (pages_data st) \<and>
           pages_data st ! (idxs ! i) = \<lparr>doc_key = dk, page_no = i + 1, page_text = []\<rparr> \<and>
           length all_texts = length (pages_data st) \<and>
           all_texts ! (idxs ! i) = NO_TEXT \<and>
           tfidf_matrix st = Bound (Some m) \<and> length m = length all_texts"
proof -
  obtain ats where b: "build_corpus E = Inr (pages_data st, doc_page_index st, ats)"
    and fit: "ats \<noteq> [] \<longrightarrow> (\<exists>v m. fit_transform E ats = Some (v, m) \<and>
               tfidf_matrix st = Bound (Some m) \<and> vectorizer st = Bound (Some v))"
    using build_index_corpus[OF assms(2)] by blast
  have eqs: "pages_data st = pd" "doc_page_index st = dpi" "ats = all_texts"
    using b assms(3) by simp_all
  have inv: "corpus_inv E (PDF_FILES E) pd dpi all_texts"
    by (rule build_corpus_inv[OF assms(3)])
  obtain idxs where idxs: "(dk, idxs) \<in> set dpi" "map (\<lambda>g. pd ! g) idxs = doc_pages E (dk, path)"
    using corpus_inv_doc[OF inv assms(4)] by auto
  have len: "length idxs = length ps"
    using idxs(2) doc_pages_length[OF assms(5), of dk] by (metis length_map)
  have i: "i < length idxs" using len assms(6) by simp
  have g: "idxs ! i < length pd"
    using corpus_inv_bound[OF inv idxs(1)] i by simp
  have "pd ! (idxs ! i) = doc_pages E (dk, path) ! i"
    using idxs(2) i by (metis nth_map)
  then have e: "pd ! (idxs ! i) = \<lparr>doc_key = dk, page_no = i + 1, page_text = []\<rparr>"
    using doc_pages_nth[OF assms(5,6), of dk] normalize_ws_blank[OF assms(7)] by simp
  have ats: "all_texts = map (\<lambda>e. vec_text (page_text e)) pd"
    using inv by (simp add: corpus_inv_def)
  have lat: "length all_texts = length pd" using ats by simp
  have s: "all_texts ! (idxs ! i) = NO_TEXT"
    using ats g e by (simp add: vec_text_empty)
  have "all_texts \<noteq> []" using lat g by auto
  then obtain v m where m: "fit_transform E all_texts = Some (v, m)" "tfidf_matrix st = Bound (Some m)"
    using fit eqs by auto
  have "length m = length all_texts"
    using assms(1) m(1) by (auto simp: vectorizer_ok_def)
  then show ?thesis
    using idxs(1) len g e lat s m(2) eqs by auto
qed

theorem blank_page_keeps_row_witness:
  "vectorizer_ok demo_env \<and> build_index demo_env = Inr demo_state \<and>
   blank (Some ''  '') \<and>
   (\<exists>idxs m. (''PMBOK'', idxs) \<in> set (doc_page_index demo_state) \<and> length idxs = 3 \<and>
      idxs ! 2 < length (pages_data demo_state) \<and>
      pages_data demo_state ! (idxs ! 2) = \<lparr>doc_key = ''PMBOK'', page_no = 3, page_text = []\<rparr> \<and>
      length demo_texts = length (pages_data demo_state) \<and>
      demo_texts ! (idxs ! 2) = NO_TEXT \<and>
      tfidf_matrix demo_state = Bound (Some m) \<and> length m = length demo_texts)"
proof -
  have f: "(''PMBOK'', ''/srv/backend/../site/PMBOK7.pdf'') \<in> set (PDF_FILES demo_env)"
    by code_simp
  have p: "files demo_env ''/srv/backend/../site/PMBOK7.pdf'' =
             Pages [Some ''Project  scope'', Some ''scope baseline'', Some ''  '']"
    by (simp add: demo_env_def demo_files_def)
  have b: "blank ([Some ''Project  scope'', Some ''scope baseline'', Some ''  ''] ! 2)"
    by code_simp
  have b': "blank (Some ''  '')" by code_simp
  show ?thesis
    using blank_page_keeps_row[OF demo_vectorizer_ok demo_build_index demo_build_corpus f p _ b] b'
      demo_vectorizer_ok demo_build_index
    by (simp add: numeral_3_eq_3)
qed

text \<open>
  Claim C8. After a build over a corpus that is not empty the matrix has as many rows as the
  corpus has pages; the position lists, taken in the order of the configured documents,
  make up the positions 0 to n - 1 in order, so every position belongs to exactly one
  document; the k-th position of a document holds its page k + 1; a missing document has
  the empty list.
\<close>

theorem index_rows_and_partition:
  assumes "vectorizer_ok E"
    and "build_index E = Inr st"
    and "pages_data st \<noteq> []"
  shows "(\<exists>m. tfidf_matrix st = Bound (Some m) \<and> length m = length (pages_data st)) \<and>
         map fst (doc_page_index st) = map fst (PDF_FILES E) \<and>
         concat (map snd (doc_page_index st)) = [0..<length (pages_data st)] \<and>
         (\<forall>g<length (pages_data st). \<exists>!dk. \<exists>idxs. (dk, idxs) \<in> set (doc_page_index st) \<and> g \<in> set idxs) \<and>
         (\<forall>(dk, idxs)\<in>set (doc_page_index st). \<forall>k<length idxs.
            doc_key (pages_data st ! (idxs ! k)) = dk \<and> page_no (pages_data st ! (idxs ! k)) = k + 1) \<and>
         (\<forall>(dk, path)\<in>set (PDF_FILES E). files E path = Missing \<longrightarrow> (dk, []) \<in> set (doc_page_index st))"
proof -
  let ?pd = "pages_data st" and ?dpi = "doc_page_index st"
  obtain ats where b: "build_corpus E = Inr (?pd, ?dpi, ats)"
    and fit: "ats \<noteq> [] \<longrightarrow> (\<exists>v m. fit_transform E ats = Some (v, m) \<and>
               tfidf_matrix st = Bound (Some m) \<and> vectorizer st = Bound (Some v))"
    using build_index_corpus[OF assms(2)] by blast
  have inv: "corpus_inv E (PDF_FILES E) ?pd ?dpi ats"
    by (rule build_corpus_inv[OF b])
  have lat: "length ats = length ?pd" using inv by (simp add: corpus_inv_def)
  then have "ats \<noteq> []" using assms(3) by auto
  then obtain v m where m: "fit_transform E ats = Some (v, m)" "tfidf_matrix st = Bound (Some m)"
    using fit by auto
  have "length m = length ats" using assms(1) m(1) by (auto simp: vectorizer_ok_def)
  then have rows: "\<exists>m. tfidf_matrix st = Bound (Some m) \<and> length m = length ?pd"
    using m(2) lat by simp
  have keys: "map fst ?dpi = map fst (PDF_FILES E)" by (rule corpus_inv_keys[OF inv])
  have c: "concat (map snd ?dpi) = [0..<length ?pd]" using inv by (simp add: corpus_inv_def)
  have dk: "distinct (map fst ?dpi)" using keys distinct_PDF_FILES[of E] by simp
  have dc: "distinct (concat (map snd ?dpi))" using c by simp
  have one: "\<forall>g<length ?pd. \<exists>!dk. \<exists>idxs. (dk, idxs) \<in> set ?dpi \<and> g \<in> set idxs"
  proof (intro allI impI)
    fix g assume "g < length ?pd"
    then have "g \<in> set (concat (map snd ?dpi))" using c by simp
    then obtain dk idxs where ex: "(dk, idxs) \<in> set ?dpi" "g \<in> set idxs" by auto
    show "\<exists>!dk. \<exists>idxs. (dk, idxs) \<in> set ?dpi \<and> g \<in> set idxs"
    proof (rule ex1I[of _ dk])
      show "\<exists>idxs. (dk, idxs) \<in> set ?dpi \<and> g \<in> set idxs" using ex by auto
    next
      fix dk' assume "\<exists>idxs. (dk', idxs) \<in> set ?dpi \<and> g \<in> set idxs"
      then obtain idxs' where ex': "(dk', idxs') \<in> set ?dpi" "g \<in> set idxs'" by auto
      show "dk' = dk"
        by (rule concat_distinct_unique[OF dc ex'(1) ex(1) ex'(2) ex(2) dk])
    qed
  qed
  have order: "\<forall>(dk, idxs)\<in>set ?dpi. \<forall>k<length idxs.
            doc_key (?pd ! (idxs ! k)) = dk \<and> page_no (?pd ! (idxs ! k)) = k + 1"
  proof (clarify)
    fix dk idxs k assume h: "(dk, idxs) \<in> set ?dpi" "k < length idxs"
    obtain d where d: "d \<in> set (PDF_FILES E)" "fst d = dk" "map (\<lambda>g. ?pd ! g) idxs = doc_pages E d"
      using corpus_inv_entry[OF inv h(1)] by auto
    have "k < length (doc_pages E d)" using d(3) h(2) by (metis length_map)
    moreover have "?pd ! (idxs ! k) = doc_pages E d ! k" using d(3) h(2) by (metis nth_map)
    ultimately show "doc_key (?pd ! (idxs ! k)) = dk \<and> page_no (?pd ! (idxs ! k)) = k + 1"
      using doc_pages_key_no[of k E d] d(2) by simp
  qed
  have missing: "\<forall>(dk, path)\<in>set (PDF_FILES E). files E path = Missing \<longrightarrow> (dk, []) \<in> set ?dpi"
  proof (clarify)
    fix dk path assume h: "(dk, path) \<in> set (PDF_FILES E)" "files E path = Missing"
    obtain idxs where i: "(dk, idxs) \<in> set ?dpi" "map (\<lambda>g. ?pd ! g) idxs = doc_pages E (dk, path)"
      using corpus_inv_doc[OF inv h(1)] by auto
    have "doc_pages E (dk, path) = []" using h(2) by (simp add: doc_pages_def)
    then have "idxs = []" using i(2) by simp
    then show "(dk, []) \<in> set ?dpi" using i(1) by simp
  qed
  show ?thesis using rows keys c one order missing by blast
qed

theorem index_rows_and_partition_witness:
  "vectorizer_ok demo_env \<and> build_index demo_env = Inr demo_state \<and> pages_data demo_state \<noteq> [] \<and>
   (\<exists>m. tfidf_matrix demo_state = Bound (Some m) \<and> length m = length (pages_data demo_state)) \<and>
   map fst (doc_page_index demo_state) = map fst (PDF_FILES demo_env) \<and>
   concat (map snd (doc_page_index demo_state)) = [0..<length (pages_data demo_state)] \<and>
   (\<exists>!dk. \<exists>idxs. (dk, idxs) \<in> set (doc_page_index demo_state) \<and> 3 \<in> set idxs) \<and>
   doc_key (pages_data demo_state ! ([3, 4] ! 1)) = ''PRINCE2'' \<and>
   page_no (pages_data demo_state ! ([3, 4] ! 1)) = 1 + 1 \<and>
   (''ISO21500'', []) \<in> set (doc_page_index demo_state)"
proof -
  have ne: "pages_data demo_state \<noteq> []"
    by (simp add: demo_state_def demo_pages_def)
  note t = index_rows_and_partition[OF demo_vectorizer_ok demo_build_index ne]
  have len: "(3::nat) < length (pages_data demo_state)"
    by (simp add: demo_state_def demo_pages_def)
  have one: "\<exists>!dk. \<exists>idxs. (dk, idxs) \<in> set (doc_page_index demo_state) \<and> 3 \<in> set idxs"
    using t len by blast
  have e: "(''PRINCE2'', [3, 4]) \<in> set (doc_page_index demo_state)"
    by (simp add: demo_state_def demo_index_def)
  have k: "(1::nat) < length [3::nat, 4]" by simp
  have ord: "doc_key (pages_data demo_state ! ([3, 4] ! 1)) = ''PRINCE2'' \<and>
             page_no (pages_data demo_state ! ([3, 4] ! 1)) = 1 + 1"
    using t e k by blast
  have f: "(''ISO21500'', ''/srv/backend/../site/ISO21500.pdf'') \<in> set (PDF_FILES demo_env)"
    by code_simp
  have m: "files demo_env ''/srv/backend/../site/ISO21500.pdf'' = Missing"
    by (simp add: demo_env_def demo_files_def)
  have miss: "(''ISO21500'', []) \<in> set (doc_page_index demo_state)"
    using t f m by blast
  show ?thesis
    using t one ord miss demo_vectorizer_ok demo_build_index ne by blast
qed

text \<open>
  Claim C5. When the build read no page, there is no matrix, and a search with a query that
  is not empty after trimming and a \<open>top_k\<close> that \<open>int\<close> accepts answers with the error
  "Index not built or PDFs missing." (status 500), the IndexUnavailable of the specification.
\<close>

theorem empty_corpus_index_unavailable:
  assumes "build_index E = Inr st"
    and "pages_data st = []"
    and "request_data body = Inr data"
    and "request_query data = Inr query"
    and "query \<noteq> []"
    and "request_top_k data = Inr top_k"
  shows "tfidf_matrix st = Bound None \<and>
         api_search E st body = Inl (ErrorResponse 500 ''Index not built or PDFs missing.'')"
proof -
  obtain ats where b: "build_corpus E = Inr (pages_data st, doc_page_index st, ats)"
    and none: "ats = [] \<longrightarrow> tfidf_matrix st = Bound None \<and> vectorizer st = Bound None"
    using build_index_corpus[OF assms(1)] by blast
  have "corpus_inv E (PDF_FILES E) (pages_data st) (doc_page_index st) ats"
    by (rule build_corpus_inv[OF b])
  then have "ats = []" using assms(2) by (simp add: corpus_inv_def)
  then have m: "tfidf_matrix st = Bound None" using none by simp
  show ?thesis
    using m assms(3-6) by (simp add: api_search_def)
qed

theorem empty_corpus_index_unavailable_witness:
  "build_index no_files_env = Inr no_files_state \<and> pages_data no_files_state = [] \<and>
   request_data (demo_request ''scope'' (JInt 3)) = Inr [(''query'', JStr ''scope''), (''top_k'', JInt 3)] \<and>
   request_query [(''query'', JStr ''scope''), (''top_k'', JInt 3)] = Inr ''scope'' \<and>
   request_top_k [(''query'', JStr ''scope''), (''top_k'', JInt 3)] = Inr 3 \<and>
   tfidf_matrix no_files_state = Bound None \<and>
   api_search no_files_env no_files_state (demo_request ''scope'' (JInt 3)) =
     Inl (ErrorResponse 500 ''Index not built or PDFs missing.'')"
proof -
  have p: "pages_data no_files_state = []" by (simp add: no_files_state_def)
  have d: "request_data (demo_request ''scope'' (JInt 3)) = Inr [(''query'', JStr ''scope''), (''top_k'', JInt 3)]"
    by (simp add: request_data_def demo_request_def)
  have q: "request_query [(''query'', JStr ''scope''), (''top_k'', JInt 3)] = Inr ''scope''"
    by code_simp
  have k: "request_top_k [(''query'', JStr ''scope''), (''top_k'', JInt 3)] = Inr 3"
    by code_simp
  show ?thesis
    using empty_corpus_index_unavailable[OF no_files_build_index p d q _ k]
      no_files_build_index p d q k
    by simp
qed

section \<open>The relevance line of the summary\<close>

lemma score_docs_fresh:
  "distinct (map fst snips) \<Longrightarrow> fst ` set snips \<inter> fst ` set acc = {} \<Longrightarrow>
   score_docs qt snips acc = acc @ map (\<lambda>(d, t). (d, card (qt \<inter> text_tokens t))) snips"
proof (induction snips arbitrary: acc)
  case Nil
  then show ?case by simp
next
  case (Cons p snips)
  obtain d t where p: "p = (d, t)" by (cases p)
  have fresh: "d \<notin> fst ` set acc" using Cons.prems(2) p by auto
  have disj: "fst ` set snips \<inter> fst ` set (acc @ [(d, card (qt \<inter> text_tokens t))]) = {}"
    using Cons.prems p by auto
  have dist: "distinct (map fst snips)" using Cons.prems(1) by simp
  show ?case
    by (simp add: p update_fresh[OF fresh] Cons.IH[OF dist disj])
qed

lemma ranked_docs_eq:
  assumes "distinct (map fst snips)"
  shows "ranked_docs query snips =
           sort_key (\<lambda>(d, n). - int n) (map (\<lambda>(d, t). (d, overlap query t)) snips)"
  using score_docs_fresh[OF assms, of "[]" "query_tokens query"]
  by (simp add: ranked_docs_def overlap_def)







section \<open>The ranking of one document\<close>






















section \<open>What the summary depends on\<close>

lemma map_of_rev_distinct: "distinct (map fst xs) \<Longrightarrow> map_of (rev xs) = map_of xs"
proof (induction xs)
  case Nil
  then show ?case by simp
next
  case (Cons p xs)
  obtain k v where p: "p = (k, v)" by (cases p)
  have notin: "k \<notin> fst ` set xs" and d: "distinct (map fst xs)" using Cons.prems p by auto
  have "map_of xs k = None" using notin by (simp add: map_of_eq_None_iff)
  then have "map_of (rev xs @ [(k, v)]) = (map_of xs)(k \<mapsto> v)"
    using Cons.IH[OF d] by (auto simp: map_add_def fun_eq_iff split: option.splits)
  then show ?case by (simp add: p)
qed

lemma dict_get_distinct:
  "distinct (map fst d) \<Longrightarrow> dict_get d k dflt = (case map_of d k of None \<Rightarrow> dflt | Some v \<Rightarrow> v)"
  by (simp add: dict_get_def map_of_rev_distinct)

lemma same_order_same_dict:
  assumes "distinct (map fst s1)" "map_of s1 = map_of s2" "map fst s1 = map fst s2"
  shows "s1 = s2"
proof -
  have "length s1 = length s2" using arg_cong[OF assms(3), of length] by simp
  then have len: "length (map snd s1) = length (map fst s1)" "length (map snd s2) = length (map fst s1)"
    by simp_all
  have "map_of (zip (map fst s1) (map snd s1)) = map_of (zip (map fst s1) (map snd s2))"
    using assms(2) unfolding assms(3) zip_map_fst_snd
    by (simp add: assms(3)[symmetric] zip_map_fst_snd)
  from map_of_zip_inject[OF len assms(1) this] have "map snd s1 = map snd s2" .
  then have "zip (map fst s1) (map snd s1) = zip (map fst s2) (map snd s2)"
    using assms(3) by simp
  then show ?thesis by (simp only: zip_map_fst_snd)
qed

lemma sort_key_unique:
  assumes "set xs = set ys" "distinct xs" "distinct ys" "inj_on f (set xs)"
  shows "sort_key f xs = sort_key f ys"
proof -
  let ?a = "sort_key f xs" and ?b = "sort_key f ys"
  have inj: "inj_on f (set ?a \<union> set ?b)" using assms(1,4) by simp
  have da: "distinct (map f ?a)" using assms(2,4) by (simp add: distinct_map)
  have db: "distinct (map f ?b)" using assms(1,3,4) by (simp add: distinct_map)
  have "set (map f ?a) = set (map f ?b)" using assms(1) by simp
  from sorted_distinct_set_unique[OF sorted_sort_key da sorted_sort_key db this]
  have "map f ?a = map f ?b" .
  then show ?thesis using inj_on_map_eq_map[OF inj] by blast
qed

lemma ranked_docs_no_ties:
  assumes "distinct (map fst s1)" "distinct (map fst s2)" "map_of s1 = map_of s2"
    and "inj_on (\<lambda>(d, t). overlap query t) (set s1)"
  shows "ranked_docs query s1 = ranked_docs query s2"
proof -
  let ?g = "\<lambda>(d, t). (d, overlap query t)"
  let ?k = "\<lambda>(d, n :: nat). - int n"
  have sets: "set s1 = set s2" using map_of_inject_set[OF assms(1,2)] assms(3) by simp
  have inj_fst: "inj_on fst (set s1)" "inj_on fst (set s2)"
    using assms(1,2) by (simp_all add: distinct_map)
  have g1: "inj_on ?g (set s1)"
  proof (rule inj_onI)
    fix p r assume pr: "p \<in> set s1" "r \<in> set s1" and e: "?g p = ?g r"
    have "fst p = fst r" using e by (simp add: case_prod_unfold)
    then show "p = r" by (rule inj_onD[OF inj_fst(1) _ pr])
  qed
  have d1: "distinct (map ?g s1)" using assms(1) g1 by (simp add: distinct_map distinct_map[THEN iffD1, OF assms(1), THEN conjunct1])
  have d2: "distinct (map ?g s2)" using assms(2) g1 sets by (simp add: distinct_map distinct_map[THEN iffD1, OF assms(2), THEN conjunct1])
  have ss: "set (map ?g s1) = set (map ?g s2)" using sets by simp
  have ik: "inj_on ?k (set (map ?g s1))"
  proof (rule inj_onI)
    fix a b assume a: "a \<in> set (map ?g s1)" and b: "b \<in> set (map ?g s1)" and e: "?k a = ?k b"
    obtain p where p: "p \<in> set s1" "a = ?g p" using a by auto
    obtain r where r: "r \<in> set s1" "b = ?g r" using b by auto
    have "(\<lambda>(d, t). overlap query t) p = (\<lambda>(d, t). overlap query t) r"
      using e p(2) r(2) by (simp add: case_prod_unfold)
    then have "p = r" by (rule inj_onD[OF assms(4) _ p(1) r(1)])
    then show "a = b" using p(2) r(2) by simp
  qed
  show ?thesis
    unfolding ranked_docs_eq[OF assms(1)] ranked_docs_eq[OF assms(2)]
    by (rule sort_key_unique[OF ss d1 d2 ik])
qed

text \<open>
  Claim C9. (as amended) Two calls of the summary synthesizer with the same query and with excerpt
  dictionaries that are equal as mappings give the same string when the keys were inserted
  in the same order, or when no two documents have the same overlap score. Documents of
  equal overlap are listed in insertion order, so with a tie a different insertion order
  may change the string.
\<close>

theorem summary_of_equal_mappings:
  assumes "distinct (map fst s1)" and "distinct (map fst s2)" and "map_of s1 = map_of s2"
    and "map fst s1 = map fst s2 \<or> inj_on (\<lambda>(d, t). overlap query t) (set s1)"
  shows "synthesize_summary query s1 = synthesize_summary query s2"
proof -
  from assms(4) show ?thesis
  proof
    assume "map fst s1 = map fst s2"
    then have "s1 = s2" by (rule same_order_same_dict[OF assms(1,3)])
    then show ?thesis by simp
  next
    assume "inj_on (\<lambda>(d, t). overlap query t) (set s1)"
    then have r: "ranked_docs query s1 = ranked_docs query s2"
      by (rule ranked_docs_no_ties[OF assms(1-3)])
    have g: "dict_get s1 doc [] = dict_get s2 doc []" for doc
      by (simp add: dict_get_distinct assms(1,2,3))
    have "detail_lines s1 (ranked_docs query s1) = detail_lines s2 (ranked_docs query s2)"
      unfolding detail_lines_def r g ..
    then show ?thesis
      by (simp add: synthesize_summary_def summary_lines_def Let_def r)
  qed
qed

theorem summary_of_equal_mappings_witness:
  "distinct (map fst [(''A'', ''project scope''), (''B'', ''scope y'')]) \<and>
   distinct (map fst [(''B'', ''scope y''), (''A'', ''project scope'')]) \<and>
   map_of [(''A'', ''project scope''), (''B'', ''scope y'')] =
     map_of [(''B'', ''scope y''), (''A'', ''project scope'')] \<and>
   inj_on (\<lambda>(d, t). overlap ''project scope'' t) (set [(''A'', ''project scope''), (''B'', ''scope y'')]) \<and>
   synthesize_summary ''project scope'' [(''A'', ''project scope''), (''B'', ''scope y'')] =
     synthesize_summary ''project scope'' [(''B'', ''scope y''), (''A'', ''project scope'')]"
proof -
  let ?s1 = "[(''A'', ''project scope''), (''B'', ''scope y'')]"
  let ?s2 = "[(''B'', ''scope y''), (''A'', ''project scope'')]"
  have d1: "distinct (map fst ?s1)" by simp
  have d2: "distinct (map fst ?s2)" by simp
  have m: "map_of ?s1 = map_of ?s2" by (auto simp: fun_eq_iff)
  have o1: "overlap ''project scope'' ''project scope'' = 2" by code_simp
  have o2: "overlap ''project scope'' ''scope y'' = 1" by code_simp
  have i: "inj_on (\<lambda>(d, t). overlap ''project scope'' t) (set ?s1)"
    by (simp add: o1 o2)
  have h: "map fst ?s1 = map fst ?s2 \<or> inj_on (\<lambda>(d, t). overlap ''project scope'' t) (set ?s1)"
    using i by (rule disjI2)
  show ?thesis
    by (intro conjI d1 d2 m i summary_of_equal_mappings[OF d1 d2 m h])
qed

theorem summary_order_counterexample:
  "map_of [(''A'', ''scope x''), (''B'', ''scope y'')] =
     map_of [(''B'', ''scope y''), (''A'', ''scope x'')] \<and>
   synthesize_summary ''scope'' [(''A'', ''scope x''), (''B'', ''scope y'')] \<noteq>
     synthesize_summary ''scope'' [(''B'', ''scope y''), (''A'', ''scope x'')]"
proof -
  have m: "map_of [(''A'', ''scope x''), (''B'', ''scope y'')] =
           map_of [(''B'', ''scope y''), (''A'', ''scope x'')]"
    by (auto simp: fun_eq_iff)
  have n: "synthesize_summary ''scope'' [(''A'', ''scope x''), (''B'', ''scope y'')] \<noteq>
           synthesize_summary ''scope'' [(''B'', ''scope y''), (''A'', ''scope x'')]"
    by code_simp
  show ?thesis using m n by (rule conjI)
qed

section \<open>A search on a built index answers\<close>











section \<open>What \<open>top_k\<close> does when it is not a positive integer\<close>





section \<open>Dot products of TF-IDF vectors\<close>

lemma dot_Nil [simp]: "dot [] w = 0" "dot u [] = 0"
  by (simp_all add: dot_def)

lemma dot_Cons [simp]: "dot (a # u) (b # w) = a * b + dot u w"
  by (simp add: dot_def)








section \<open>The page behind a returned item\<close>




section \<open>The reported score\<close>





section \<open>Pages of equal similarity\<close>








section \<open>Where the sentinel can occur\<close>

lemma set_NO_TEXT: "set NO_TEXT = set ''[no-text-on-page]''"
  by (simp add: NO_TEXT_def)


























end
